theory Spec2Isabelle
  imports Main "HOL-Library.Monad_Syntax"
begin

section \<open>The collector of GarbageCollector.h\<close>

text \<open>
  The header defines one class, \<open>GarbageCollector\<close>: a list \<open>_pointers\<close> of
  \<open>std::shared_ptr<void>\<close>, the member functions \<open>collect\<close> and \<open>alloc\<close>, and the static
  functions \<open>getInstance\<close> and \<open>runtime\<close>.

  A \<open>shared_ptr\<close> is modelled by the control block it points to (\<open>None\<close> is the empty
  pointer). A control block has the use count of its ownership group and the raw object the
  group manages; releasing the last owner deletes that raw object, which is recorded in
  the log \<open>deleted\<close>. The source is generic in \<open>TType\<close>; what a raw object
  contributes to ownership is the handles it holds in its members, which its destruction
  releases. The table \<open>owns\<close> has one pair for each such handle: the raw object and the
  handle it holds. Objects of class \<open>GarbageCollector\<close> live at addresses;
  \<open>pointers w a\<close> is the member \<open>_pointers\<close> of the object at address \<open>a\<close>.
  The mutexes are not modelled: every function below runs as one sequential step.
\<close>

type_synonym raw = nat
type_synonym block = nat
type_synonym shared_ptr = "block option"
type_synonym addr = nat

record world =
  gc_instance :: "addr option"
  constructed :: nat
  pointers :: "addr \<Rightarrow> shared_ptr list"
  use_count :: "block \<Rightarrow> int"
  managed :: "block \<Rightarrow> raw"
  next_block :: block
  deleted :: "raw list"
  owns :: "(raw \<times> shared_ptr) list"

subsection \<open>Shared pointers\<close>

text \<open>\<open>shared_ptr::use_count()\<close>: 0 for the empty pointer.\<close>

definition use_count_of :: "world \<Rightarrow> shared_ptr \<Rightarrow> int" where
  "use_count_of w p = (case p of None \<Rightarrow> 0 | Some b \<Rightarrow> use_count w b)"

text \<open>\<open>shared_ptr::unique()\<close> is \<open>use_count() == 1\<close>.\<close>

definition unique :: "world \<Rightarrow> shared_ptr \<Rightarrow> bool" where
  "unique w p = (use_count_of w p = 1)"

text \<open>
  Owners go away (destructor, or assignment over the pointer): \<open>release_all\<close> takes the
  handles that are being released, first to last. For each the count is decremented, and
  the owner that brings it to 0 deletes the managed object: \<open>delete\<close> destroys the object
  and with it the handles in its members, which are released next, before the handles
  that were waiting.
\<close>

function release_all :: "shared_ptr list \<Rightarrow> world \<Rightarrow> world" where
  "release_all [] w = w"
| "release_all (None # ps) w = release_all ps w"
| "release_all (Some b # ps) w =
     (let n = use_count w b - 1;
          w1 = w\<lparr>use_count := (use_count w)(b := n)\<rparr>
      in if n = 0
         then release_all
                (map snd (filter (\<lambda>e. fst e = managed w b) (owns w1)) @ ps)
                (w1\<lparr>deleted := deleted w1 @ [managed w b],
                    owns := filter (\<lambda>e. fst e \<noteq> managed w b) (owns w1)\<rparr>)
         else release_all ps w1)"
  by pat_completeness auto

termination
proof (relation "measures [\<lambda>(ps, w). length (owns w), \<lambda>(ps, w). length ps]")
  show "wf (measures [\<lambda>(ps, w). length (owns w), \<lambda>(ps, w). length ps])" by simp
next
  fix ps :: "shared_ptr list" and w :: world
  show "((ps, w), None # ps, w)
          \<in> measures [\<lambda>(ps, w). length (owns w), \<lambda>(ps, w). length ps]"
    by simp
next
  fix b :: block and ps :: "shared_ptr list" and w :: world and n :: int and w1 :: world
  assume w1: "w1 = w\<lparr>use_count := (use_count w)(b := n)\<rparr>"
  have split: "length (filter (\<lambda>e. fst e = managed w b) (owns w))
                 + length (filter (\<lambda>e. fst e \<noteq> managed w b) (owns w)) = length (owns w)"
    using sum_length_filter_compl [of "\<lambda>e. fst e = managed w b" "owns w"] by simp
  show "((map snd (filter (\<lambda>e. fst e = managed w b) (owns w1)) @ ps,
           w1\<lparr>deleted := deleted w1 @ [managed w b],
               owns := filter (\<lambda>e. fst e \<noteq> managed w b) (owns w1)\<rparr>),
          Some b # ps, w)
          \<in> measures [\<lambda>(ps, w). length (owns w), \<lambda>(ps, w). length ps]"
  proof (cases "filter (\<lambda>e. fst e = managed w b) (owns w) = []")
    case True
    with split w1 show ?thesis by simp
  next
    case False
    then have "Suc 0 \<le> length (filter (\<lambda>e. fst e = managed w b) (owns w))"
      by (cases "filter (\<lambda>e. fst e = managed w b) (owns w)") simp_all
    with split have "length (filter (\<lambda>e. fst e \<noteq> managed w b) (owns w)) < length (owns w)"
      by linarith
    with w1 show ?thesis by simp
  qed
  show "((ps, w1), Some b # ps, w) \<in> measures [\<lambda>(ps, w). length (owns w), \<lambda>(ps, w). length ps]"
    using w1 by simp
qed

definition release :: "shared_ptr \<Rightarrow> world \<Rightarrow> world" where
  "release p w = release_all [p] w"

text \<open>The copy constructor: one more owner.\<close>

definition copy_ptr :: "shared_ptr \<Rightarrow> world \<Rightarrow> world" where
  "copy_ptr p w =
     (case p of
        None \<Rightarrow> w
      | Some b \<Rightarrow> w\<lparr>use_count := (use_count w)(b := use_count w b + 1)\<rparr>)"

text \<open>
  The raw object \<open>r\<close> stores a copy of the handle \<open>p\<close> in one of its members.
\<close>

definition store :: "raw \<Rightarrow> shared_ptr \<Rightarrow> world \<Rightarrow> world" where
  "store r p w = (let w1 = copy_ptr p w in w1\<lparr>owns := owns w1 @ [(r, p)]\<rparr>)"

text \<open>
  \<open>std::shared_ptr<TType>(instance)\<close>: a new control block, also for a null \<open>instance\<close>,
  with use count 1.
\<close>

definition from_raw :: "raw \<Rightarrow> world \<Rightarrow> shared_ptr \<times> world" where
  "from_raw instance_ptr w =
     (let b = next_block w
      in (Some b, w\<lparr>use_count := (use_count w)(b := 1),
                     managed := (managed w)(b := instance_ptr),
                     next_block := Suc b\<rparr>))"

subsection \<open>The list \<open>_pointers\<close>\<close>

text \<open>
  An iterator is the index of its element; \<open>begin()\<close> is 0 and \<open>end()\<close> is the length.
  \<open>*iterator = nullptr\<close> releases the stored pointer and leaves the empty one in the slot.
\<close>

definition assign_null :: "addr \<Rightarrow> nat \<Rightarrow> world \<Rightarrow> world" where
  "assign_null this it w =
     (let w1 = release (pointers w this ! it) w
      in w1\<lparr>pointers := (pointers w1)(this := (pointers w1 this)[it := None])\<rparr>)"

text \<open>
  \<open>_pointers.erase(iterator)\<close> destroys the element, unlinks it and returns the iterator
  to the element that followed: the same index.
\<close>

definition erase :: "addr \<Rightarrow> nat \<Rightarrow> world \<Rightarrow> nat \<times> world" where
  "erase this it w =
     (let w1 = release (pointers w this ! it) w;
          xs = pointers w1 this
      in (it, w1\<lparr>pointers := (pointers w1)(this := take it xs @ drop (Suc it) xs)\<rparr>))"

text \<open>\<open>_pointers.push_back(pointer)\<close> stores a copy at the end.\<close>

definition push_back :: "addr \<Rightarrow> shared_ptr \<Rightarrow> world \<Rightarrow> world" where
  "push_back this p w =
     (let w1 = copy_ptr p w
      in w1\<lparr>pointers := (pointers w1)(this := pointers w1 this @ [p])\<rparr>)"

subsection \<open>\<open>collect\<close>\<close>

text \<open>
  The body of the \<open>for\<close> loop of \<open>collect\<close>. The loop header has no increment, and the
  body assigns the iterator only in the branch that erases.
\<close>

definition collect_body :: "addr \<Rightarrow> nat \<Rightarrow> world \<Rightarrow> nat \<times> world" where
  "collect_body this it w =
     (if unique w (pointers w this ! it)
      then erase this it (assign_null this it w)
      else (it, w))"

text \<open>The loop runs while \<open>iterator != _pointers.end()\<close>; it need not end.\<close>

partial_function (option) collect_loop :: "addr \<Rightarrow> nat \<Rightarrow> world \<Rightarrow> world option" where
  "collect_loop this it w =
     (if it \<noteq> length (pointers w this)
      then collect_loop this (fst (collect_body this it w)) (snd (collect_body this it w))
      else Some w)"

declare collect_loop.simps [code]

definition collect :: "addr \<Rightarrow> world \<Rightarrow> world option" where
  "collect this w = collect_loop this 0 w"

text \<open>The first \<open>n\<close> passes through the loop body, for a run that has not ended yet.\<close>

fun collect_steps :: "nat \<Rightarrow> addr \<Rightarrow> nat \<Rightarrow> world \<Rightarrow> nat \<times> world" where
  "collect_steps 0 this it w = (it, w)"
| "collect_steps (Suc n) this it w =
     (if it \<noteq> length (pointers w this)
      then collect_steps n this (fst (collect_body this it w)) (snd (collect_body this it w))
      else (it, w))"

subsection \<open>\<open>alloc\<close>\<close>

definition alloc :: "addr \<Rightarrow> raw \<Rightarrow> world \<Rightarrow> shared_ptr \<times> world" where
  "alloc this instance_ptr w =
     (let (pointer, w1) = from_raw instance_ptr w;
          w2 = push_back this pointer w1
      in (pointer, w2))"

subsection \<open>\<open>getInstance\<close>\<close>

text \<open>\<open>new GarbageCollector\<close>, stored in \<open>_instance\<close>: a fresh object with an empty list.\<close>

definition construct :: "world \<Rightarrow> world" where
  "construct w =
     w\<lparr>gc_instance := Some (constructed w),
       constructed := Suc (constructed w),
       pointers := (pointers w)(constructed w := [])\<rparr>"

definition getInstance :: "world \<Rightarrow> addr option \<times> world" where
  "getInstance w =
     (let w1 = (if gc_instance w = None
                then (if gc_instance w = None then construct w else w)
                else w)
      in (gc_instance w1, w1))"

text \<open>Calling \<open>getInstance\<close> \<open>n\<close> times in a row; the results in order.\<close>

fun getInstance_calls :: "nat \<Rightarrow> world \<Rightarrow> addr option list \<times> world" where
  "getInstance_calls 0 w = ([], w)"
| "getInstance_calls (Suc n) w =
     (let (g, w1) = getInstance w;
          (gs, w2) = getInstance_calls n w1
      in (g # gs, w2))"

subsection \<open>\<open>runtime\<close>\<close>

text \<open>
  \<open>runtime\<close> has two threads. The run is written as one sequence: the unit of work is
  the list of its steps on the collector and on handles (\<open>Work\<close>), with a \<open>Timeout\<close>
  wherever a timed wait of the collection thread expires in between. The variables of
  \<open>runtime\<close> and of its thread are in \<open>run_state\<close>, out of the reach of the work:
  \<open>gcStopSignal\<close>, whether the thread has left its loop (\<open>exited\<close>), and a log of what
  happened (\<open>trace\<close>). A sweep is one step of the sequence: no handle is copied or
  dropped while it is under way. That is so for the last sweep of a work with one thread,
  whose caller is blocked in \<open>join\<close>. A \<open>Timeout\<close> in the list stands for a timed wait
  whose sweep ends before the next step of the work; a run in which the work goes on
  while a sweep is under way is not one of these sequences, and \<open>None\<close> for a list with
  such a \<open>Timeout\<close> says only that the sweep does not end as long as the work makes no
  step.
\<close>

datatype event = StopSignal | Sweep | LoopExit

datatype step = Work "world \<Rightarrow> world" | Timeout

record run_state =
  mem :: world
  gcStopSignal :: bool
  exited :: bool
  trace :: "event list"

text \<open>
  One pass through the thread's \<open>while (true)\<close>: \<open>wait_for\<close> returns the value of its
  predicate, which is \<open>gcStopSignal\<close>; then \<open>getInstance()->collect()\<close>; then the
  \<open>break\<close> when \<open>isNotTimeout\<close>. A null \<open>getInstance()\<close> gives no result.
\<close>

definition thread_iteration :: "run_state \<Rightarrow> run_state option" where
  "thread_iteration st =
     (let isNotTimeout = gcStopSignal st;
          (g, m1) = getInstance (mem st)
      in case g of
           None \<Rightarrow> None
         | Some this \<Rightarrow>
             do { m2 \<leftarrow> collect this m1;
                  Some (st\<lparr>mem := m2, exited := isNotTimeout,
                           trace := trace st @ [Sweep] @ (if isNotTimeout then [LoopExit] else [])\<rparr>) })"

text \<open>\<open>function()\<close>, with the timed-out waits that fall into it.\<close>

fun run_function :: "step list \<Rightarrow> run_state \<Rightarrow> run_state option" where
  "run_function [] st = Some st"
| "run_function (Work f # r) st = run_function r (st\<lparr>mem := f (mem st)\<rparr>)"
| "run_function (Timeout # r) st =
     (if exited st then run_function r st else thread_iteration st \<bind> run_function r)"

text \<open>\<open>garbageCollectionThread.join()\<close>: the thread goes on until it has left its loop.\<close>

partial_function (option) join :: "run_state \<Rightarrow> run_state option" where
  "join st = (if exited st then Some st else thread_iteration st \<bind> join)"

declare join.simps [code]

text \<open>
  \<open>runtime\<close>: the unit of work is given with the status it returns. The result is that
  status and the final state, or \<open>None\<close> when \<open>runtime\<close> does not return.
\<close>

definition runtime :: "step list \<times> int \<Rightarrow> world \<Rightarrow> (int \<times> run_state) option" where
  "runtime function m =
     (let st0 = \<lparr>mem = m, gcStopSignal = False, exited = False, trace = []\<rparr>
      in do { st1 \<leftarrow> run_function (fst function) st0;
              let code = snd function;
              let st2 = st1\<lparr>gcStopSignal := True, trace := trace st1 @ [StopSignal]\<rparr>;
              st3 \<leftarrow> join st2;
              Some (code, st3) })"

text \<open>The process at its start: \<open>_instance\<close> is null and nothing is allocated.\<close>

definition boot :: world where
  "boot = \<lparr>gc_instance = None, constructed = 0, pointers = (\<lambda>_. []),
           use_count = (\<lambda>_. 0), managed = (\<lambda>_. 0), next_block = 0, deleted = [],
           owns = []\<rparr>"

subsection \<open>Runs of the operations\<close>

text \<open>
  What a client and the collection thread can do to the collector at \<open>this\<close>, one
  operation at a time: register an object, copy or drop a handle, store a handle in an
  object, and one pass through the loop of \<open>collect\<close> from \<open>begin()\<close>.
\<close>

datatype operation =
  Alloc raw | Copy shared_ptr | Drop shared_ptr | Store raw shared_ptr | SweepPass

fun apply_op :: "addr \<Rightarrow> operation \<Rightarrow> world \<Rightarrow> world" where
  "apply_op this (Alloc r) w = snd (alloc this r w)"
| "apply_op this (Copy p) w = copy_ptr p w"
| "apply_op this (Drop p) w = release p w"
| "apply_op this (Store r p) w = store r p w"
| "apply_op this SweepPass w = snd (collect_steps 1 this 0 w)"

fun apply_ops :: "addr \<Rightarrow> operation list \<Rightarrow> world \<Rightarrow> world" where
  "apply_ops this [] w = w"
| "apply_ops this (x # xs) w = apply_ops this xs (apply_op this x w)"

subsection \<open>Owners outside the registry\<close>

text \<open>
  The use count of a control block counts every owner: the entries of \<open>_pointers\<close>, the
  handles stored in objects, and the handles that the code using the collector holds in
  its own variables. \<open>outside_owners\<close> is the number of the last kind.
\<close>

definition outside_owners :: "addr \<Rightarrow> world \<Rightarrow> block \<Rightarrow> int" where
  "outside_owners this w b =
     use_count w b - int (count_list (pointers w this) (Some b))
       - int (count_list (map snd (owns w)) (Some b))"

subsection \<open>Concrete states\<close>

text \<open>The singleton exists (at address 0) and tracks nothing.\<close>

definition started :: world where
  "started = snd (getInstance boot)"

text \<open>One object (raw address 7) is registered and its handle is still held.\<close>

definition one_held :: world where
  "one_held = snd (alloc 0 7 started)"

text \<open>
  Three objects are registered; the handles of the first and of the third have been
  dropped, the handle of the second is still held.
\<close>

definition mixed :: world where
  "mixed = apply_ops 0 [Alloc 1, Alloc 2, Alloc 3, Drop (Some 0), Drop (Some 2)] started"

text \<open>Two objects are registered and both handles have been dropped.\<close>

definition all_dropped :: world where
  "all_dropped = apply_ops 0 [Alloc 1, Alloc 2, Drop (Some 0), Drop (Some 1)] started"


text \<open>Two objects are registered and both handles are still held.\<close>

definition both_held :: world where
  "both_held = apply_ops 0 [Alloc 1, Alloc 2] started"

text \<open>
  Two objects are registered, the first stores a handle to the second, and both handles
  that \<open>alloc\<close> returned have been dropped: the first object is owned by the registry
  alone, the second by the registry and by the first object.
\<close>

definition chain :: world where
  "chain = apply_ops 0 [Alloc 1, Alloc 2, Store 1 (Some 1), Drop (Some 0), Drop (Some 1)] started"

text \<open>
  Two objects (raw addresses 10 and 20) are registered; the handle of the first is still
  held, the handle of the second has been dropped.
\<close>

definition first_kept :: world where
  "first_kept = apply_ops 0 [Alloc 10, Alloc 20, Drop (Some 1)] started"


text \<open>
  Units of work. \<open>keeps_first\<close> registers object 10 and leaves its handle with an owner
  that outlives \<open>runtime\<close>, then registers object 20 and drops that handle; it returns 0.
  \<open>keeps_handle\<close> registers one object whose handle outlives \<open>runtime\<close> and returns 7.
  \<open>sweeps_then_keeps\<close> registers an object and drops the handle, a timed wait expires,
  and it registers another object whose handle outlives \<open>runtime\<close>; it returns 0.
  \<open>holds_own_pointer\<close> registers an object and drops the handle, then makes a
  \<open>shared_ptr\<close> of its own for object 99, which it never registers and which outlives
  \<open>runtime\<close>; it returns 5.
  \<open>drops_handles\<close> registers an object and drops the handle, a timed wait expires, it
  registers another object and drops that handle too; it returns 3.
\<close>

definition keeps_first :: "step list \<times> int" where
  "keeps_first =
     ([Work (\<lambda>m. snd (getInstance m)), Work (\<lambda>m. snd (alloc 0 10 m)),
       Work (\<lambda>m. snd (alloc 0 20 m)), Work (release (Some 1))], 0)"

definition keeps_handle :: "step list \<times> int" where
  "keeps_handle = ([Work (\<lambda>m. snd (getInstance m)), Work (\<lambda>m. snd (alloc 0 7 m))], 7)"

definition sweeps_then_keeps :: "step list \<times> int" where
  "sweeps_then_keeps =
     ([Work (\<lambda>m. snd (getInstance m)), Work (\<lambda>m. snd (alloc 0 7 m)),
       Work (release (Some 0)), Timeout, Work (\<lambda>m. snd (alloc 0 8 m))], 0)"


definition drops_handles :: "step list \<times> int" where
  "drops_handles =
     ([Work (\<lambda>m. snd (getInstance m)), Work (\<lambda>m. snd (alloc 0 7 m)),
       Work (release (Some 0)), Timeout,
       Work (\<lambda>m. snd (alloc 0 8 m)), Work (release (Some 1))], 3)"

text \<open>The state of \<open>runtime\<close> when \<open>function\<close> is called.\<close>

definition entered :: "world \<Rightarrow> run_state" where
  "entered m = \<lparr>mem = m, gcStopSignal = False, exited = False, trace = []\<rparr>"

section \<open>Releasing owners\<close>

text \<open>
  What a release leaves alone, that it never raises a use count, and how it counts: the
  owners of a control block outside the handles being released and outside the handles
  stored in objects are not touched, an object of a group that still has an owner has not
  been deleted, and every group that loses its last owner adds one deletion of its object.
\<close>

lemma release_all_frame [simp]:
  "pointers (release_all ps w) = pointers w"
  "next_block (release_all ps w) = next_block w"
  "managed (release_all ps w) = managed w"
  "gc_instance (release_all ps w) = gc_instance w"
  "constructed (release_all ps w) = constructed w"
  by (induction ps w rule: release_all.induct; simp add: Let_def)+

lemma release_all_mono: "use_count (release_all ps w) b \<le> use_count w b"
proof (induction ps w rule: release_all.induct)
  case (1 w)
  then show ?case by simp
next
  case (2 ps w)
  then show ?case by simp
next
  case (3 c ps w)
  let ?w1 = "w\<lparr>use_count := (use_count w)(c := use_count w c - 1)\<rparr>"
  show ?case
  proof (cases "use_count w c - 1 = 0")
    case True
    with "3.IH"(1) [OF refl refl True]
    show ?thesis by (auto simp: Let_def split: if_splits intro: order_trans)
  next
    case False
    with "3.IH"(2) [OF refl refl False]
    show ?thesis by (auto simp: Let_def split: if_splits intro: order_trans)
  qed
qed

lemma release_frame [simp]:
  "pointers (release p w) = pointers w" "next_block (release p w) = next_block w"
  "managed (release p w) = managed w" "gc_instance (release p w) = gc_instance w"
  "constructed (release p w) = constructed w"
  by (simp_all add: release_def)

lemma release_None [simp]: "release None w = w"
  by (simp add: release_def)

lemma filter_rest:
  "filter P xs = [] \<Longrightarrow> filter (\<lambda>e. \<not> P e) xs = xs"
  by (induction xs) (auto split: if_splits)

lemma release_plain:
  assumes "filter (\<lambda>e. fst e = managed w b) (owns w) = []"
  shows "release (Some b) w =
     (if use_count w b = 1
      then w\<lparr>use_count := (use_count w)(b := 0), deleted := deleted w @ [managed w b]\<rparr>
      else w\<lparr>use_count := (use_count w)(b := use_count w b - 1)\<rparr>)"
proof -
  from assms have "filter (\<lambda>e. fst e \<noteq> managed w b) (owns w) = owns w"
    by (rule filter_rest)
  with assms show ?thesis by (simp add: release_def Let_def)
qed

lemma release_plain_owns:
  "owns w = [] \<Longrightarrow> owns (release p w) = []"
  by (cases p) (simp_all add: release_plain)

lemma count_list_filter_split:
  "count_list (map f (filter P xs)) y + count_list (map f (filter (\<lambda>e. \<not> P e) xs)) y
     = count_list (map f xs) y"
  by (induction xs) auto

lemma release_all_outside:
  "use_count (release_all ps w) b - int (count_list (map snd (owns (release_all ps w))) (Some b))
     = use_count w b - int (count_list (map snd (owns w)) (Some b)) - int (count_list ps (Some b))"
proof (induction ps w rule: release_all.induct)
  case (1 w)
  then show ?case by simp
next
  case (2 ps w)
  then show ?case by simp
next
  case (3 c ps w)
  let ?r = "managed w c"
  show ?case
  proof (cases "use_count w c - 1 = 0")
    case True
    have split: "int (count_list (map snd (filter (\<lambda>e. fst e = ?r) (owns w))) (Some b))
                   + int (count_list (map snd (filter (\<lambda>e. fst e \<noteq> ?r) (owns w))) (Some b))
                 = int (count_list (map snd (owns w)) (Some b))"
      using count_list_filter_split [of snd "\<lambda>e. fst e = ?r" "owns w" "Some b"]
      by (simp flip: of_nat_add)
    from True have one: "use_count w c = 1" by simp
    from "3.IH"(1) [OF refl refl True] one split
    show ?thesis by (cases "c = b") (simp_all add: Let_def)
  next
    case False
    with "3.IH"(2) [OF refl refl False]
    show ?thesis by (simp add: Let_def)
  qed
qed

lemma release_all_alive:
  "1 \<le> use_count (release_all ps w) b \<Longrightarrow>
   \<forall>c. c \<noteq> b \<longrightarrow> managed w c \<noteq> managed w b \<Longrightarrow>
   count_list (deleted (release_all ps w)) (managed w b) = count_list (deleted w) (managed w b)"
proof (induction ps w rule: release_all.induct)
  case (1 w)
  then show ?case by simp
next
  case (2 ps w)
  then show ?case by simp
next
  case (3 c ps w)
  show ?case
  proof (cases "use_count w c - 1 = 0")
    case True
    let ?w2 = "w\<lparr>use_count := (use_count w)(c := use_count w c - 1),
                 deleted := deleted w @ [managed w c],
                 owns := filter (\<lambda>e. fst e \<noteq> managed w c) (owns w)\<rparr>"
    let ?ps2 = "map snd (filter (\<lambda>e. fst e = managed w c) (owns w)) @ ps"
    have eq: "release_all (Some c # ps) w = release_all ?ps2 ?w2"
      using True by (simp add: Let_def)
    have "c \<noteq> b"
    proof
      assume "c = b"
      with True have "use_count ?w2 b = 0" by simp
      with release_all_mono [of ?ps2 ?w2 b] have "use_count (release_all ?ps2 ?w2) b \<le> 0"
        by simp
      with "3.prems"(1) eq show False by simp
    qed
    with "3.prems"(2) have ne: "managed w c \<noteq> managed w b" by simp
    from "3.IH"(1) [OF refl refl True] "3.prems" eq
    have "count_list (deleted (release_all ?ps2 ?w2)) (managed w b)
            = count_list (deleted ?w2) (managed w b)"
      by simp
    with ne eq show ?thesis by simp
  next
    case False
    with "3.IH"(2) [OF refl refl False] "3.prems"
    show ?thesis by (simp add: Let_def)
  qed
qed

lemma release_mono: "use_count (release p w) b \<le> use_count w b"
  unfolding release_def by (rule release_all_mono)

lemma release_last:
  assumes "use_count w c = 1"
  shows "use_count (release (Some c) w) c \<le> 0"
proof -
  let ?w2 = "w\<lparr>use_count := (use_count w)(c := 0),
                 deleted := deleted w @ [managed w c],
                 owns := filter (\<lambda>e. fst e \<noteq> managed w c) (owns w)\<rparr>"
  let ?ps = "map snd (filter (\<lambda>e. fst e = managed w c) (owns w))"
  from assms have "release (Some c) w = release_all ?ps ?w2"
    by (simp add: release_def Let_def)
  with release_all_mono [of ?ps ?w2 c] show ?thesis by simp
qed

lemma release_outside:
  "use_count (release p w) b - int (count_list (map snd (owns (release p w))) (Some b))
     = use_count w b - int (count_list (map snd (owns w)) (Some b))
         - (if p = Some b then 1 else 0)"
  using release_all_outside [of "[p]" w b] unfolding release_def by simp

lemma release_alive:
  "1 \<le> use_count (release p w) b \<Longrightarrow>
   \<forall>c. c \<noteq> b \<longrightarrow> managed w c \<noteq> managed w b \<Longrightarrow>
   count_list (deleted (release p w)) (managed w b) = count_list (deleted w) (managed w b)"
  unfolding release_def by (rule release_all_alive)

lemma release_all_disposals:
  assumes "finite B" and "\<forall>b\<in>B. managed w b = r"
  shows "count_list (deleted w) r + card {b\<in>B. 1 \<le> use_count w b}
           \<le> count_list (deleted (release_all ps w)) r
               + card {b\<in>B. 1 \<le> use_count (release_all ps w) b}"
  using assms(2)
proof (induction ps w rule: release_all.induct)
  case (1 w)
  then show ?case by simp
next
  case (2 ps w)
  then show ?case by simp
next
  case (3 c ps w)
  let ?S = "{b\<in>B. 1 \<le> use_count w b}"
  from assms(1) have fin: "finite ?S" by simp
  show ?case
  proof (cases "use_count w c - 1 = 0")
    case True
    let ?w2 = "w\<lparr>use_count := (use_count w)(c := use_count w c - 1),
                 deleted := deleted w @ [managed w c],
                 owns := filter (\<lambda>e. fst e \<noteq> managed w c) (owns w)\<rparr>"
    let ?ps2 = "map snd (filter (\<lambda>e. fst e = managed w c) (owns w)) @ ps"
    have eq: "release_all (Some c # ps) w = release_all ?ps2 ?w2"
      using True by (simp add: Let_def)
    have ih: "count_list (deleted ?w2) r + card {b\<in>B. 1 \<le> use_count ?w2 b}
                \<le> count_list (deleted (release_all ?ps2 ?w2)) r
                    + card {b\<in>B. 1 \<le> use_count (release_all ?ps2 ?w2) b}"
      using "3.IH"(1) [OF refl refl True] "3.prems" by simp
    have sets: "{b\<in>B. 1 \<le> use_count ?w2 b} = ?S - {c}"
      using True by auto
    have dw2: "count_list (deleted ?w2) r
                 = count_list (deleted w) r + (if managed w c = r then 1 else 0)"
      by simp
    have first: "count_list (deleted w) r + card ?S
            \<le> count_list (deleted ?w2) r + card {b\<in>B. 1 \<le> use_count ?w2 b}"
    proof (cases "c \<in> B")
      case False
      then have "?S - {c} = ?S" by auto
      with sets have "card {b\<in>B. 1 \<le> use_count ?w2 b} = card ?S" by (simp only:)
      with dw2 show ?thesis by linarith
    next
      case cB: True
      with True have "c \<in> ?S" by simp
      with fin have "card (?S - {c}) + 1 = card ?S"
        by (metis Suc_eq_plus1 card_Suc_Diff1)
      with sets have "card {b\<in>B. 1 \<le> use_count ?w2 b} + 1 = card ?S" by (simp only:)
      moreover from cB "3.prems" have "managed w c = r" by simp
      then have "count_list (deleted ?w2) r = count_list (deleted w) r + 1" by simp
      ultimately show ?thesis by linarith
    qed
    from first ih have "count_list (deleted w) r + card ?S
            \<le> count_list (deleted (release_all ?ps2 ?w2)) r
                    + card {b\<in>B. 1 \<le> use_count (release_all ?ps2 ?w2) b}"
      by (rule order_trans)
    then show ?thesis unfolding eq .
  next
    case False
    let ?w1 = "w\<lparr>use_count := (use_count w)(c := use_count w c - 1)\<rparr>"
    have eq: "release_all (Some c # ps) w = release_all ps ?w1"
      using False by (simp add: Let_def)
    have sets: "{b\<in>B. 1 \<le> use_count ?w1 b} = ?S"
      using False by auto
    have ih: "count_list (deleted ?w1) r + card {b\<in>B. 1 \<le> use_count ?w1 b}
                \<le> count_list (deleted (release_all ps ?w1)) r
                    + card {b\<in>B. 1 \<le> use_count (release_all ps ?w1) b}"
      using "3.IH"(2) [OF refl refl False] "3.prems" by simp
    have "count_list (deleted ?w1) r = count_list (deleted w) r" by simp
    with ih sets have "count_list (deleted w) r + card ?S
                \<le> count_list (deleted (release_all ps ?w1)) r
                    + card {b\<in>B. 1 \<le> use_count (release_all ps ?w1) b}"
      by (simp only:)
    then show ?thesis unfolding eq .
  qed
qed

lemma release_disposals:
  assumes "finite B" and "\<forall>b\<in>B. managed w b = r"
  shows "count_list (deleted w) r + card {b\<in>B. 1 \<le> use_count w b}
           \<le> count_list (deleted (release p w)) r
               + card {b\<in>B. 1 \<le> use_count (release p w) b}"
  unfolding release_def using assms by (rule release_all_disposals)

lemma release_dec: "use_count (release (Some b) w) b \<le> use_count w b - 1"
proof (cases "use_count w b - 1 = 0")
  case True
  then have "use_count w b = 1" by simp
  from release_last [OF this] True show ?thesis by simp
next
  case False
  let ?w1 = "w\<lparr>use_count := (use_count w)(b := use_count w b - 1)\<rparr>"
  from False have "release (Some b) w = release_all [] ?w1"
    by (simp add: release_def Let_def)
  then show ?thesis by simp
qed

section \<open>The loop of \<open>collect\<close>\<close>

text \<open>
  The loop is unfolded one pass at a time. A pass at an entry that has another owner
  changes nothing, the iterator included; a pass at an entry that the registry alone owns
  releases it and erases it. While nobody else copies or drops a handle, the loop returns
  only once every entry has been erased.
\<close>

lemma collect_loop_end:
  "it = length (pointers w this) \<Longrightarrow> collect_loop this it w = Some w"
  by (subst collect_loop.simps) simp

lemma collect_loop_next:
  "it \<noteq> length (pointers w this) \<Longrightarrow>
   collect_loop this it w
     = collect_loop this (fst (collect_body this it w)) (snd (collect_body this it w))"
  by (subst collect_loop.simps) simp

lemma collect_body_skip:
  "\<not> unique w (pointers w this ! it) \<Longrightarrow> collect_body this it w = (it, w)"
  by (simp add: collect_body_def)

lemma collect_body_fst: "fst (collect_body this it w) = it"
  by (simp add: collect_body_def erase_def Let_def)

lemma unique_SomeD: "unique w p \<Longrightarrow> \<exists>b. p = Some b \<and> use_count w b = 1"
  by (cases p) (simp_all add: unique_def use_count_of_def)

lemma collect_body_release:
  assumes "pointers w this = Some b # xs" and "use_count w b = 1"
  shows "collect_body this 0 w =
           (0, (release (Some b) w)\<lparr>pointers := (pointers w)(this := xs)\<rparr>)"
  using assms
  by (simp add: collect_body_def unique_def use_count_of_def erase_def assign_null_def Let_def)

lemma collect_body_evict:
  assumes "pointers w this = Some b # xs" and "use_count w b = 1"
    and "filter (\<lambda>e. fst e = managed w b) (owns w) = []"
  shows "collect_body this 0 w =
           (0, w\<lparr>use_count := (use_count w)(b := 0),
                 deleted := deleted w @ [managed w b],
                 pointers := (pointers w)(this := xs)\<rparr>)"
  using assms by (simp add: collect_body_release release_plain)

lemma collect_loop_empties:
  assumes "collect_loop this it w = Some w'" and "it = 0"
  shows "pointers w' this = []"
proof -
  have "it = 0 \<longrightarrow> pointers w' this = []"
  proof (rule collect_loop.raw_induct
      [where P = "\<lambda>this it w w'. it = 0 \<longrightarrow> pointers w' this = []", OF _ assms(1)])
    fix f this it w w'
    assume ih: "\<And>this it w w'. f this it w = Some w' \<Longrightarrow> it = 0 \<longrightarrow> pointers w' this = []"
      and run: "(if it \<noteq> length (pointers w this)
               then f this (fst (collect_body this it w)) (snd (collect_body this it w))
               else Some w) = Some w'"
    show "it = 0 \<longrightarrow> pointers w' this = []"
      using ih run by (auto simp: collect_body_fst split: if_splits)
  qed
  with assms(2) show ?thesis by simp
qed

lemma collect_loop_passes:
  assumes "collect_loop this it w = Some w'"
  shows "\<exists>n. snd (collect_steps n this it w) = w'"
proof (rule collect_loop.raw_induct
    [where P = "\<lambda>this it w w'. \<exists>n. snd (collect_steps n this it w) = w'", OF _ assms])
  fix f this it w w'
  assume ih: "\<And>this it w w'. f this it w = Some w' \<Longrightarrow> \<exists>n. snd (collect_steps n this it w) = w'"
    and run: "(if it \<noteq> length (pointers w this)
               then f this (fst (collect_body this it w)) (snd (collect_body this it w))
               else Some w) = Some w'"
  show "\<exists>n. snd (collect_steps n this it w) = w'"
  proof (cases "it = length (pointers w this)")
    case True
    with run have "snd (collect_steps 0 this it w) = w'" by simp
    then show ?thesis ..
  next
    case False
    with run have "f this (fst (collect_body this it w)) (snd (collect_body this it w)) = Some w'"
      by simp
    from ih [OF this] obtain n where
      "snd (collect_steps n this (fst (collect_body this it w)) (snd (collect_body this it w))) = w'"
      by blast
    with False have "snd (collect_steps (Suc n) this it w) = w'" by simp
    then show ?thesis ..
  qed
qed

lemma collect_loop_evict:
  assumes "pointers w this = Some b # xs" and "use_count w b = 1" and "owns w = []"
  shows "collect_loop this 0 w =
           collect_loop this 0 (w\<lparr>use_count := (use_count w)(b := 0),
                 deleted := deleted w @ [managed w b],
                 pointers := (pointers w)(this := xs)\<rparr>)"
  using assms by (simp add: collect_loop_next collect_body_evict)

lemma collect_sole_owned:
  "distinct xs \<Longrightarrow> pointers w this = xs \<Longrightarrow> \<forall>p\<in>set xs. unique w p \<Longrightarrow> owns w = [] \<Longrightarrow>
   \<exists>w'. collect_loop this 0 w = Some w'
      \<and> pointers w' = (pointers w)(this := [])
      \<and> deleted w' = deleted w @ map (\<lambda>p. managed w (the p)) xs
      \<and> use_count w' = (\<lambda>b. if Some b \<in> set xs then 0 else use_count w b)
      \<and> managed w' = managed w \<and> next_block w' = next_block w
      \<and> gc_instance w' = gc_instance w \<and> constructed w' = constructed w
      \<and> owns w' = []"
proof (induction xs arbitrary: w)
  case Nil
  then have "pointers w = (pointers w)(this := [])" by auto
  with Nil show ?case by (simp add: collect_loop_end)
next
  case (Cons p xs)
  then obtain b where b: "p = Some b" "use_count w b = 1"
    using unique_SomeD by (metis list.set_intros(1))
  let ?w2 = "w\<lparr>use_count := (use_count w)(b := 0),
                 deleted := deleted w @ [managed w b],
                 pointers := (pointers w)(this := xs)\<rparr>"
  have step: "collect_loop this 0 w = collect_loop this 0 ?w2"
    using Cons.prems(2,4) b by (simp add: collect_loop_evict)
  have nb: "Some b \<notin> set xs" using Cons.prems(1) b by simp
  have u2: "\<forall>q\<in>set xs. unique ?w2 q"
  proof
    fix q assume q: "q \<in> set xs"
    with Cons.prems(3) have "unique w q" by simp
    then obtain c where c: "q = Some c" "use_count w c = 1"
      using unique_SomeD by blast
    with q nb have "c \<noteq> b" by auto
    with c show "unique ?w2 q"
      by (simp add: unique_def use_count_of_def)
  qed
  from Cons.prems(1) have d: "distinct xs" by simp
  have p2: "pointers ?w2 this = xs" by simp
  have o2: "owns ?w2 = []" using Cons.prems(4) by simp
  from Cons.IH [OF d p2 u2 o2] obtain w' where w':
    "collect_loop this 0 ?w2 = Some w'"
    "pointers w' = (pointers ?w2)(this := [])"
    "deleted w' = deleted ?w2 @ map (\<lambda>p. managed ?w2 (the p)) xs"
    "use_count w' = (\<lambda>b. if Some b \<in> set xs then 0 else use_count ?w2 b)"
    "managed w' = managed ?w2" "next_block w' = next_block ?w2"
    "gc_instance w' = gc_instance ?w2" "constructed w' = constructed ?w2"
    "owns w' = []"
    by blast
  show ?case
    using step w' b by (auto simp: fun_eq_iff)
qed

lemma pass_empty:
  "pointers w this = [] \<Longrightarrow> collect_steps n this 0 w = (0, w)"
  by (cases n) simp_all

lemma pass_skip:
  "pointers w this = p # xs \<Longrightarrow> \<not> unique w p \<Longrightarrow>
   collect_steps (Suc n) this 0 w = collect_steps n this 0 w"
  by (simp add: collect_body_skip)

lemma pass_evict:
  "pointers w this = Some c # xs \<Longrightarrow> use_count w c = 1 \<Longrightarrow>
   collect_steps (Suc n) this 0 w
     = collect_steps n this 0 ((release (Some c) w)\<lparr>pointers := (pointers w)(this := xs)\<rparr>)"
  by (simp add: collect_body_release)

lemma passes_keep:
  "use_count (snd (collect_steps n this 0 w)) b \<le> use_count w b
   \<and> managed (snd (collect_steps n this 0 w)) = managed w
   \<and> outside_owners this (snd (collect_steps n this 0 w)) b = outside_owners this w b
   \<and> (1 \<le> use_count (snd (collect_steps n this 0 w)) b \<longrightarrow>
        (Some b \<in> set (pointers w this) \<longrightarrow>
           Some b \<in> set (pointers (snd (collect_steps n this 0 w)) this))
        \<and> ((\<forall>c. c \<noteq> b \<longrightarrow> managed w c \<noteq> managed w b) \<longrightarrow>
             count_list (deleted (snd (collect_steps n this 0 w))) (managed w b)
               = count_list (deleted w) (managed w b)))"
proof (induction n arbitrary: w)
  case 0
  then show ?case by simp
next
  case (Suc n)
  show ?case
  proof (cases "pointers w this")
    case Nil
    then show ?thesis by (simp add: pass_empty del: collect_steps.simps)
  next
    case (Cons p xs)
    show ?thesis
    proof (cases "unique w p")
      case False
      with Cons Suc.IH [of w] show ?thesis by (simp add: pass_skip del: collect_steps.simps)
    next
      case True
      then obtain c where c: "p = Some c" "use_count w c = 1"
        using unique_SomeD by blast
      let ?w2 = "(release (Some c) w)\<lparr>pointers := (pointers w)(this := xs)\<rparr>"
      let ?w' = "snd (collect_steps n this 0 ?w2)"
      from Cons c have head: "pointers w this = Some c # xs" by simp
      have step: "collect_steps (Suc n) this 0 w = collect_steps n this 0 ?w2"
        using head c(2) by (rule pass_evict)
      note ih = Suc.IH [of ?w2]
      have mono2: "use_count ?w2 b \<le> use_count w b"
        by (simp add: release_mono)
      have out2: "outside_owners this ?w2 b = outside_owners this w b"
        using release_outside [of "Some c" w b] Cons c
        by (cases "c = b") (simp_all add: outside_owners_def)
      have a: "use_count ?w' b \<le> use_count w b" using ih mono2 by linarith
      have m: "managed ?w' = managed w" using ih by simp
      have o: "outside_owners this ?w' b = outside_owners this w b" using ih out2 by simp
      have rest: "(Some b \<in> set (pointers w this) \<longrightarrow> Some b \<in> set (pointers ?w' this))
          \<and> ((\<forall>c. c \<noteq> b \<longrightarrow> managed w c \<noteq> managed w b) \<longrightarrow>
               count_list (deleted ?w') (managed w b) = count_list (deleted w) (managed w b))"
        if alive: "1 \<le> use_count ?w' b"
      proof -
        from ih alive have alive2: "1 \<le> use_count ?w2 b" by linarith
        then have alive2': "1 \<le> use_count (release (Some c) w) b"
          by simp
        have cb: "c \<noteq> b"
        proof
          assume "c = b"
          with release_last [OF c(2)] alive2' show False by simp
        qed
        have reg: "Some b \<in> set (pointers ?w' this)" if "Some b \<in> set (pointers w this)"
        proof -
          from that Cons c cb have "Some b \<in> set (pointers ?w2 this)" by auto
          with ih alive show ?thesis by simp
        qed
        have del: "count_list (deleted ?w') (managed w b) = count_list (deleted w) (managed w b)"
          if prov: "\<forall>c. c \<noteq> b \<longrightarrow> managed w c \<noteq> managed w b"
        proof -
          from release_alive [OF alive2' prov]
          have "count_list (deleted ?w2) (managed w b) = count_list (deleted w) (managed w b)"
            by simp
          moreover from ih alive prov
          have "count_list (deleted ?w') (managed ?w2 b) = count_list (deleted ?w2) (managed ?w2 b)"
            by simp
          ultimately show ?thesis by simp
        qed
        from reg del show ?thesis by blast
      qed
      from a m o rest show ?thesis unfolding step by blast
    qed
  qed
qed

lemma passes_keep_held:
  assumes "Some b \<in> set (pointers w this)" and "1 \<le> outside_owners this w b"
  shows "Some b \<in> set (pointers (snd (collect_steps n this 0 w)) this)
       \<and> 1 < use_count (snd (collect_steps n this 0 w)) b
       \<and> outside_owners this (snd (collect_steps n this 0 w)) b = outside_owners this w b"
proof -
  let ?w' = "snd (collect_steps n this 0 w)"
  note k = passes_keep [of n this w b]
  from k assms(2) have out: "1 \<le> outside_owners this ?w' b" by simp
  then have "1 \<le> use_count ?w' b" by (simp add: outside_owners_def)
  with k assms(1) have reg: "Some b \<in> set (pointers ?w' this)" by blast
  then have "1 \<le> count_list (pointers ?w' this) (Some b)"
    using count_list_0_iff [of "pointers ?w' this" "Some b"] by linarith
  with out have "1 < use_count ?w' b" by (simp add: outside_owners_def)
  with reg k show ?thesis by simp
qed

lemma collect_none_if_held:
  assumes "Some b \<in> set (pointers w this)" and "1 \<le> outside_owners this w b"
  shows "collect this w = None"
proof (cases "collect this w")
  case None
  then show ?thesis .
next
  case (Some w')
  then have run: "collect_loop this 0 w = Some w'" by (simp add: collect_def)
  from collect_loop_passes [OF run] obtain n where "snd (collect_steps n this 0 w) = w'" ..
  with passes_keep_held [OF assms, of n] have "Some b \<in> set (pointers w' this)" by simp
  moreover from collect_loop_empties [OF run] have "pointers w' this = []" by simp
  ultimately show ?thesis by simp
qed

lemma collect_again:
  assumes "collect this w = Some w'"
  shows "collect this w' = Some w'"
proof -
  from assms have "pointers w' this = []"
    unfolding collect_def by (rule collect_loop_empties) simp
  then show ?thesis
    unfolding collect_def by (simp add: collect_loop_end)
qed

subsection \<open>The concrete states, evaluated\<close>

lemmas model_defs = getInstance_def construct_def alloc_def from_raw_def push_back_def
  copy_ptr_def release_def store_def boot_def Let_def

lemma started_simps:
  "gc_instance started = Some 0" "constructed started = 1" "pointers started = (\<lambda>_. [])"
  "use_count started = (\<lambda>_. 0)" "managed started = (\<lambda>_. 0)" "next_block started = 0"
  "deleted started = []" "owns started = []"
  by (simp_all add: started_def model_defs fun_eq_iff)

lemma one_held_simps:
  "pointers one_held 0 = [Some 0]" "use_count one_held 0 = 2"
  "next_block one_held = Suc 0" "gc_instance one_held = Some 0" "owns one_held = []"
  by (simp_all add: one_held_def started_simps model_defs)

lemma mixed_simps:
  "pointers mixed 0 = [Some 0, Some (Suc 0), Some 2]" "use_count mixed 0 = 1"
  "use_count mixed (Suc 0) = 2" "use_count mixed 2 = 1" "deleted mixed = []"
  "managed mixed 0 = 1" "managed mixed (Suc 0) = 2" "managed mixed 2 = 3"
  "owns mixed = []"
  by (simp_all add: mixed_def started_simps model_defs)


lemma mixed_pass:
  "collect_body 0 0 mixed =
     (0, mixed\<lparr>use_count := (use_count mixed)(0 := 0), deleted := [1],
               pointers := (pointers mixed)(0 := [Some (Suc 0), Some 2])\<rparr>)"
  by (simp add: collect_body_evict [of mixed 0 0 "[Some (Suc 0), Some 2]"] mixed_simps)


lemma all_dropped_simps:
  "pointers all_dropped 0 = [Some 0, Some (Suc 0)]" "use_count all_dropped 0 = 1"
  "use_count all_dropped (Suc 0) = 1" "deleted all_dropped = []"
  "managed all_dropped 0 = 1" "managed all_dropped (Suc 0) = 2" "owns all_dropped = []"
  by (simp_all add: all_dropped_def started_simps model_defs)

lemma collect_all_dropped:
  "collect 0 all_dropped =
     Some (all_dropped\<lparr>use_count := (use_count all_dropped)(0 := 0, Suc 0 := 0),
                       deleted := [1, 2],
                       pointers := (pointers all_dropped)(0 := [])\<rparr>)"
  unfolding collect_def
  by (simp add: collect_loop_evict [of all_dropped 0 0 "[Some (Suc 0)]"]
      collect_loop_evict [of _ 0 "Suc 0" "[]"] collect_loop_end all_dropped_simps)

lemma first_kept_simps:
  "pointers first_kept 0 = [Some 0, Some (Suc 0)]" "use_count first_kept 0 = 2"
  "use_count first_kept (Suc 0) = 1" "deleted first_kept = []"
  "gc_instance first_kept = Some 0" "owns first_kept = []"
  by (simp_all add: first_kept_def started_simps model_defs)

lemma both_held_simps:
  "pointers both_held 0 = [Some 0, Some (Suc 0)]" "use_count both_held 0 = 2"
  "use_count both_held (Suc 0) = 2" "owns both_held = []"
  by (simp_all add: both_held_def started_simps model_defs)

lemma chain_simps:
  "pointers chain 0 = [Some 0, Some (Suc 0)]" "use_count chain 0 = 1"
  "use_count chain (Suc 0) = 2" "deleted chain = []"
  "managed chain 0 = 1" "managed chain (Suc 0) = 2" "owns chain = [(1, Some 1)]"
  by (simp_all add: chain_def started_simps model_defs)

lemma collect_chain:
  "map_option (\<lambda>w. (pointers w 0, deleted w, use_count w 0, use_count w 1, owns w))
     (collect 0 chain) = Some ([], [1, 2], 0, 0, [])"
  by code_simp


subsection \<open>What the operations leave alone\<close>

lemma copy_ptr_frame [simp]:
  "pointers (copy_ptr p w) = pointers w" "next_block (copy_ptr p w) = next_block w"
  by (cases p; simp add: copy_ptr_def)+

lemma store_frame [simp]:
  "pointers (store r p w) = pointers w" "next_block (store r p w) = next_block w"
  by (simp_all add: store_def Let_def)

lemma alloc_registry:
  "pointers (snd (alloc this r w)) this = pointers w this @ [Some (next_block w)]"
  "next_block (snd (alloc this r w)) = Suc (next_block w)"
  by (simp_all add: alloc_def from_raw_def push_back_def copy_ptr_def Let_def)

lemma sweep_pass_registry:
  "pointers (snd (collect_steps 1 this 0 w)) this = pointers w this
   \<or> pointers (snd (collect_steps 1 this 0 w)) this = tl (pointers w this)"
  "next_block (snd (collect_steps 1 this 0 w)) = next_block w"
proof -
  show "pointers (snd (collect_steps 1 this 0 w)) this = pointers w this
   \<or> pointers (snd (collect_steps 1 this 0 w)) this = tl (pointers w this)"
  proof (cases "pointers w this")
    case Nil
    then show ?thesis by simp
  next
    case (Cons p xs)
    show ?thesis
    proof (cases "unique w p")
      case False
      with Cons show ?thesis by (simp add: collect_body_skip)
    next
      case True
      then obtain c where "p = Some c" "use_count w c = 1"
        using unique_SomeD by blast
      with Cons show ?thesis by (simp add: collect_body_release)
    qed
  qed
  show "next_block (snd (collect_steps 1 this 0 w)) = next_block w"
    by (simp add: collect_body_def erase_def assign_null_def Let_def)
qed

lemma in_set_tl: "x \<in> set (tl xs) \<Longrightarrow> x \<in> set xs"
  by (cases xs) simp_all

lemma count_list_tl: "count_list (tl xs) x \<le> count_list xs x"
  by (cases xs) simp_all

lemma getInstance_frame [simp]:
  "use_count (snd (getInstance w)) = use_count w" "managed (snd (getInstance w)) = managed w"
  "deleted (snd (getInstance w)) = deleted w" "owns (snd (getInstance w)) = owns w"
  by (simp_all add: getInstance_def construct_def)

section \<open>Termination of a sweep\<close>

text \<open>
  C2. The claim: a sweep pass, once started, runs to completion for every registry state,
  also when entries are still externally owned. On the registry that holds one entry whose
  handle is still held (use count 2), \<open>collect\<close> does not return: the pass at that entry
  neither erases it nor advances the iterator.
\<close>

theorem collect_spins_on_held_entry: "collect 0 one_held = None"
  by (rule collect_none_if_held [of 0])
    (simp_all add: one_held_simps outside_owners_def)

section \<open>What one sweep does\<close>

text \<open>
  C1. The claim: for every registry state, one sweep removes exactly the entries that only
  the registry still owns, and leaves the externally owned entries in place and in order.
  On the registry of \<open>mixed\<close> (use counts 1, 2, 1) the sweep should leave the second entry
  and evict the other two. \<open>collect\<close> does not return there: the first pass evicts the first
  entry and deletes its object, and every later pass stays at the held entry, so the third
  entry, which only the registry owns, is never reached.
\<close>

theorem sweep_stops_at_held_entry:
  "collect 0 mixed = None
   \<and> pointers (snd (collect_steps 1 0 0 mixed)) 0 = [Some 1, Some 2]
   \<and> deleted (snd (collect_steps 1 0 0 mixed)) = [1]
   \<and> unique (snd (collect_steps 1 0 0 mixed)) (Some 2)
   \<and> collect_body 0 0 (snd (collect_steps 1 0 0 mixed)) = (0, snd (collect_steps 1 0 0 mixed))"
proof -
  have "collect 0 mixed = None"
    by (rule collect_none_if_held [of "Suc 0"])
      (simp_all add: mixed_simps outside_owners_def)
  moreover have "collect_body 0 0 (snd (collect_steps 1 0 0 mixed)) = (0, snd (collect_steps 1 0 0 mixed))"
    by (rule collect_body_skip) (simp add: mixed_pass mixed_simps unique_def use_count_of_def)
  ultimately show ?thesis
    by (simp add: mixed_pass mixed_simps unique_def use_count_of_def)
qed

section \<open>\<open>runtime\<close>\<close>

text \<open>
  Once \<open>gcStopSignal\<close> is set, the thread makes one more pass through its loop and
  leaves it: \<open>join\<close> comes down to one \<open>thread_iteration\<close>. So \<open>runtime\<close> returns when
  the sweep of that pass returns, and then it returns the status of the work, after a log
  that ends with the stop signal, a sweep and the exit from the loop.
\<close>

lemma getInstance_existing:
  "gc_instance w = Some a \<Longrightarrow> getInstance w = (Some a, w)"
  by (simp add: getInstance_def)

lemma thread_iteration_SomeD:
  assumes "thread_iteration st = Some st'"
  shows "gcStopSignal st' = gcStopSignal st" and "exited st' = gcStopSignal st"
    and "trace st' = trace st @ [Sweep] @ (if gcStopSignal st then [LoopExit] else [])"
  using assms
  by (auto simp: thread_iteration_def Let_def split: prod.splits option.splits bind_splits)

lemma join_SomeD:
  assumes "join st = Some st'"
  shows "exited st' \<and> gcStopSignal st' = gcStopSignal st"
proof (rule join.raw_induct
    [where P = "\<lambda>st st'. exited st' \<and> gcStopSignal st' = gcStopSignal st", OF _ assms])
  fix f st st'
  assume ih: "\<And>st st'. f st = Some st' \<Longrightarrow> exited st' \<and> gcStopSignal st' = gcStopSignal st"
    and run: "(if exited st then Some st else thread_iteration st \<bind> f) = Some st'"
  show "exited st' \<and> gcStopSignal st' = gcStopSignal st"
  proof (cases "exited st")
    case True
    with run show ?thesis by simp
  next
    case False
    with run obtain st1 where "thread_iteration st = Some st1" "f st1 = Some st'"
      by (auto split: bind_splits)
    with ih thread_iteration_SomeD(1) show ?thesis by metis
  qed
qed

lemma run_function_waiting:
  "run_function steps st = Some st' \<Longrightarrow> \<not> gcStopSignal st \<Longrightarrow> \<not> exited st \<Longrightarrow>
   \<not> gcStopSignal st' \<and> \<not> exited st'"
proof (induction steps st rule: run_function.induct)
  case (1 st)
  then show ?case by simp
next
  case (2 f r st)
  then show ?case by simp
next
  case (3 r st)
  from "3.prems" obtain st1 where t: "thread_iteration st = Some st1" "run_function r st1 = Some st'"
    by (auto split: bind_splits)
  from thread_iteration_SomeD(1,2) [OF t(1)] "3.prems" have "\<not> gcStopSignal st1" "\<not> exited st1"
    by simp_all
  with "3.IH"(2) [OF "3.prems"(3) t] show ?case by simp
qed

lemma join_stopped:
  assumes "gcStopSignal st" and "\<not> exited st"
  shows "join st = thread_iteration st"
proof (cases "thread_iteration st")
  case None
  with assms show ?thesis by (subst join.simps) simp
next
  case (Some st1)
  with assms thread_iteration_SomeD(2) [OF Some] have "join st1 = Some st1"
    by (subst join.simps) simp
  with Some assms show ?thesis by (subst join.simps) simp
qed

lemma runtime_result:
  assumes "runtime (steps, code) m = Some (c, st)"
  shows "c = code \<and> exited st \<and> gcStopSignal st
       \<and> (\<exists>pre. trace st = pre @ [StopSignal, Sweep, LoopExit])"
proof -
  from assms obtain st1 where
    r: "run_function steps (entered m) = Some st1"
    and j: "join (st1\<lparr>gcStopSignal := True, trace := trace st1 @ [StopSignal]\<rparr>) = Some st"
    and c: "c = code"
    by (auto simp: runtime_def entered_def Let_def split: bind_splits)
  from run_function_waiting [OF r] have w: "\<not> exited st1" by (simp add: entered_def)
  let ?st2 = "st1\<lparr>gcStopSignal := True, trace := trace st1 @ [StopSignal]\<rparr>"
  from w have "join ?st2 = thread_iteration ?st2" by (intro join_stopped) simp_all
  with j have t: "thread_iteration ?st2 = Some st" by simp
  from thread_iteration_SomeD [OF t] c show ?thesis by simp
qed


text \<open>
  When the work leaves only entries that the registry alone owns (and no object holds a
  handle), \<open>runtime\<close> returns the status and every tracked object has been deleted; when
  the work has returned and left an entry with an owner in the code that uses the
  collector, \<open>runtime\<close> does not return.
\<close>

lemma runtime_completes:
  assumes r: "run_function steps (entered m) = Some st1"
    and g: "gc_instance (mem st1) = Some this"
    and d: "distinct (pointers (mem st1) this)"
    and u: "\<forall>p\<in>set (pointers (mem st1) this). unique (mem st1) p"
    and o: "owns (mem st1) = []"
  shows "\<exists>st. runtime (steps, code) m = Some (code, st)
             \<and> pointers (mem st) this = []
             \<and> deleted (mem st) = deleted (mem st1)
                 @ map (\<lambda>p. managed (mem st1) (the p)) (pointers (mem st1) this)"
proof -
  from collect_sole_owned [OF d refl u o] obtain m' where m':
    "collect this (mem st1) = Some m'" "pointers m' = (pointers (mem st1))(this := [])"
    "deleted m' = deleted (mem st1)
       @ map (\<lambda>p. managed (mem st1) (the p)) (pointers (mem st1) this)"
    unfolding collect_def by blast
  let ?st2 = "st1\<lparr>gcStopSignal := True, trace := trace st1 @ [StopSignal]\<rparr>"
  from run_function_waiting [OF r] have w: "\<not> exited st1" by (simp add: entered_def)
  then have "join ?st2 = thread_iteration ?st2" by (intro join_stopped) simp_all
  moreover have "thread_iteration ?st2
      = Some (?st2\<lparr>mem := m', exited := True, trace := trace ?st2 @ [Sweep, LoopExit]\<rparr>)"
    using g m'(1) by (simp add: thread_iteration_def getInstance_existing)
  ultimately show ?thesis
    using r m'(2,3) by (simp add: runtime_def entered_def [symmetric])
qed


lemma runtime_hangs:
  assumes r: "run_function steps (entered m) = Some st1"
    and g: "gc_instance (mem st1) = Some this"
    and p: "Some b \<in> set (pointers (mem st1) this)"
    and u: "1 \<le> outside_owners this (mem st1) b"
  shows "join (st1\<lparr>gcStopSignal := True, trace := trace st1 @ [StopSignal]\<rparr>) = None"
    and "runtime (steps, code) m = None"
proof -
  let ?st2 = "st1\<lparr>gcStopSignal := True, trace := trace st1 @ [StopSignal]\<rparr>"
  from run_function_waiting [OF r] have w: "\<not> exited st1" by (simp add: entered_def)
  then have "join ?st2 = thread_iteration ?st2" by (intro join_stopped) simp_all
  moreover have "thread_iteration ?st2 = None"
    using g collect_none_if_held [OF p u]
    by (simp add: thread_iteration_def getInstance_existing)
  ultimately show "join ?st2 = None" by simp
  with r show "runtime (steps, code) m = None"
    by (simp add: runtime_def entered_def [symmetric])
qed

lemma keeps_first_run:
  "run_function (fst keeps_first) (entered boot) = Some (entered first_kept)"
  by (simp add: keeps_first_def first_kept_def started_def entered_def)

lemma keeps_handle_run:
  "run_function (fst keeps_handle) (entered boot) = Some (entered one_held)"
  by (simp add: keeps_handle_def one_held_def started_def entered_def)

lemma drops_handles_eval:
  "map_option (\<lambda>r. (fst r, trace (snd r), exited (snd r), deleted (mem (snd r))))
     (runtime drops_handles boot)
   = Some (3, [Sweep, StopSignal, Sweep, LoopExit], True, [7, 8])"
  by code_simp



section \<open>Objects that still have an owner\<close>




section \<open>Registering an object\<close>

text \<open>
  Every operation keeps the entries of the registry below \<open>next_block\<close> and adds no
  second occurrence of an entry that is already there.
\<close>

lemma apply_op_registry:
  assumes "\<forall>p\<in>set (pointers w this). \<exists>b<next_block w. p = Some b"
    and "count_list (pointers w this) (Some b0) \<le> 1" and "b0 < next_block w"
  shows "(\<forall>p\<in>set (pointers (apply_op this x w) this).
            \<exists>b<next_block (apply_op this x w). p = Some b)
       \<and> count_list (pointers (apply_op this x w) this) (Some b0) \<le> 1
       \<and> b0 < next_block (apply_op this x w)"
proof (cases x)
  case (Alloc r)
  with assms show ?thesis by (auto simp: alloc_registry less_Suc_eq)
next
  case (Copy p)
  with assms show ?thesis by simp
next
  case (Drop p)
  with assms show ?thesis by simp
next
  case (Store r p)
  with assms show ?thesis by simp
next
  case SweepPass
  from sweep_pass_registry(1) [of this w]
  have sub: "set (pointers (snd (collect_steps 1 this 0 w)) this) \<subseteq> set (pointers w this)"
    and cnt: "count_list (pointers (snd (collect_steps 1 this 0 w)) this) (Some b0)
               \<le> count_list (pointers w this) (Some b0)"
    using count_list_tl [of "pointers w this" "Some b0"]
    by (auto dest: in_set_tl simp del: collect_steps.simps)
  from assms sub cnt show ?thesis
    unfolding SweepPass apply_op.simps sweep_pass_registry(2)
    by (meson subsetD order_trans)
qed

lemma apply_ops_registry:
  "\<forall>p\<in>set (pointers w this). \<exists>b<next_block w. p = Some b \<Longrightarrow>
   count_list (pointers w this) (Some b0) \<le> 1 \<Longrightarrow> b0 < next_block w \<Longrightarrow>
   count_list (pointers (apply_ops this ops w) this) (Some b0) \<le> 1"
proof (induction ops arbitrary: w)
  case Nil
  then show ?case by simp
next
  case (Cons x ops)
  from apply_op_registry [OF Cons.prems, of x] Cons.IH [of "apply_op this x w"]
  show ?case by simp
qed

text \<open>
  C6. In a registry whose entries all come from earlier calls of \<open>alloc\<close> (each is a
  control block below \<open>next_block\<close>), \<open>alloc\<close> makes a new control block for the object,
  appends one entry for it at the end, and returns a handle to the same block; the use
  count 2 stands for the entry and the returned handle. The entry is in the registry once,
  and through any later registrations, copies, drops and stores of handles and passes of
  a sweep it is there at most once.
\<close>

theorem alloc_registers_once:
  assumes "\<forall>p\<in>set (pointers w this). \<exists>b<next_block w. p = Some b"
  shows "fst (alloc this r w) = Some (next_block w)
       \<and> pointers (snd (alloc this r w)) this = pointers w this @ [Some (next_block w)]
       \<and> managed (snd (alloc this r w)) (next_block w) = r
       \<and> use_count (snd (alloc this r w)) (next_block w) = 2
       \<and> count_list (pointers (snd (alloc this r w)) this) (Some (next_block w)) = 1
       \<and> (\<forall>ops. count_list (pointers (apply_ops this ops (snd (alloc this r w))) this)
                   (Some (next_block w)) \<le> 1)"
proof -
  have "Some (next_block w) \<notin> set (pointers w this)"
  proof
    assume "Some (next_block w) \<in> set (pointers w this)"
    with assms obtain b where "b < next_block w" "Some (next_block w) = Some b" by blast
    then show False by simp
  qed
  then have fresh: "count_list (pointers w this) (Some (next_block w)) = 0"
    by (rule count_notin)
  have a: "fst (alloc this r w) = Some (next_block w)"
    "managed (snd (alloc this r w)) (next_block w) = r"
    "use_count (snd (alloc this r w)) (next_block w) = 2"
    by (simp_all add: alloc_def from_raw_def push_back_def copy_ptr_def Let_def)
  have one: "count_list (pointers (snd (alloc this r w)) this) (Some (next_block w)) = 1"
    by (simp add: alloc_registry fresh)
  have inv: "\<forall>p\<in>set (pointers (snd (alloc this r w)) this).
               \<exists>b<next_block (snd (alloc this r w)). p = Some b"
    using assms by (auto simp: alloc_registry less_Suc_eq)
  have "count_list (pointers (apply_ops this ops (snd (alloc this r w))) this)
          (Some (next_block w)) \<le> 1" for ops
    by (rule apply_ops_registry [OF inv]) (simp_all add: one alloc_registry(2))
  with a one show ?thesis by (simp add: alloc_registry)
qed

theorem alloc_registers_once_witness:
  "fst (alloc 0 9 one_held) = Some 1
   \<and> pointers (snd (alloc 0 9 one_held)) 0 = [Some 0, Some 1]
   \<and> use_count (snd (alloc 0 9 one_held)) 1 = 2
   \<and> count_list (pointers (apply_ops 0 [Alloc 4, SweepPass, Drop (Some 1), Alloc 9]
                             (snd (alloc 0 9 one_held))) 0) (Some 1) \<le> 1"
proof -
  have h: "\<forall>p\<in>set (pointers one_held 0). \<exists>b<next_block one_held. p = Some b"
    by (simp add: one_held_simps)
  from alloc_registers_once [OF h, of 9] show ?thesis
    by (simp add: one_held_simps del: apply_ops.simps)
qed

section \<open>Sweeping twice\<close>

text \<open>
  C7. The claim: for every registry state, two sweeps in a row (no \<open>alloc\<close>, no change of
  ownership in between) leave the registry as the first sweep left it. With two entries
  that are both still held, both sweeps should leave the two entries in place. The first
  call of \<open>collect\<close> does not return there, so there is no state after the first sweep and
  the second sweep never starts.
\<close>

theorem second_sweep_never_starts:
  "collect 0 both_held = None \<and> collect 0 both_held \<bind> collect 0 = None"
proof -
  have "collect 0 both_held = None"
    by (rule collect_none_if_held [of "Suc 0"])
      (simp_all add: both_held_simps outside_owners_def)
  then show ?thesis by simp
qed

section \<open>The singleton\<close>

text \<open>Once \<open>_instance\<close> is set, \<open>getInstance\<close> returns it and changes nothing.\<close>

lemma getInstance_later:
  "gc_instance w = Some a \<Longrightarrow> getInstance_calls n w = (replicate n (Some a), w)"
  by (induction n) (simp_all add: getInstance_def)

text \<open>
  C9. From a process in which \<open>_instance\<close> is still null, any number of calls of
  \<open>getInstance\<close> return the same instance, the one the first call constructs, and exactly
  one object is constructed as soon as there is a call at all.
\<close>

text \<open>
  C9. From a process in which \<open>_instance\<close> is still null, any number of calls of
  \<open>getInstance\<close> return the same instance, the one the first call constructs, and exactly
  one object is constructed as soon as there is a call at all.
\<close>

theorem getInstance_constructs_once:
  assumes "gc_instance w = None"
  shows "fst (getInstance_calls n w) = replicate n (Some (constructed w))
       \<and> constructed (snd (getInstance_calls n w)) = constructed w + (if n = 0 then 0 else 1)
       \<and> gc_instance (snd (getInstance_calls n w))
           = (if n = 0 then None else Some (constructed w))"
proof (cases n)
  case 0
  with assms show ?thesis by simp
next
  case (Suc k)
  have "getInstance w = (Some (constructed w), construct w)"
    using assms by (simp add: getInstance_def construct_def)
  moreover have "gc_instance (construct w) = Some (constructed w)"
    by (simp add: construct_def)
  ultimately show ?thesis
    using Suc by (simp add: getInstance_later construct_def)
qed

theorem getInstance_constructs_once_witness:
  "gc_instance boot = None
   \<and> fst (getInstance_calls 3 boot) = [Some 0, Some 0, Some 0]
   \<and> constructed (snd (getInstance_calls 3 boot)) = 1"
proof -
  have h: "gc_instance boot = None" by (simp add: boot_def)
  from getInstance_constructs_once [OF h, of 3] h show ?thesis
    by (simp add: boot_def numeral_3_eq_3)
qed

section \<open>Registering the same object twice\<close>

text \<open>The state after two calls of \<open>alloc\<close> with one raw pointer.\<close>

lemma alloc_twice_state:
  "fst (alloc this p w) = Some (next_block w)"
  "fst (alloc this p (snd (alloc this p w))) = Some (Suc (next_block w))"
  "pointers (snd (alloc this p (snd (alloc this p w)))) this
     = pointers w this @ [Some (next_block w), Some (Suc (next_block w))]"
  "managed (snd (alloc this p (snd (alloc this p w)))) (next_block w) = p"
  "managed (snd (alloc this p (snd (alloc this p w)))) (Suc (next_block w)) = p"
  "use_count (snd (alloc this p (snd (alloc this p w)))) (next_block w) = 2"
  "use_count (snd (alloc this p (snd (alloc this p w)))) (Suc (next_block w)) = 2"
  "deleted (snd (alloc this p (snd (alloc this p w)))) = deleted w"
  "owns (snd (alloc this p (snd (alloc this p w)))) = owns w"
  by (simp_all add: alloc_def from_raw_def push_back_def copy_ptr_def Let_def)

lemma two_groups_disposed:
  assumes m: "managed w2 b1 = p" "managed w2 b2 = p" and ne: "b1 \<noteq> b2"
    and c: "use_count w2 b1 = 2" "use_count w2 b2 = 2"
  shows "count_list (deleted w2) p + 1
           \<le> count_list (deleted (release (Some b1) (release (Some b1) w2))) p"
    and "count_list (deleted w2) p + 2
           \<le> count_list (deleted (release (Some b2) (release (Some b2)
                 (release (Some b1) (release (Some b1) w2))))) p"
proof -
  let ?B = "{b1, b2}"
  let ?w3 = "release (Some b1) w2"
  let ?w4 = "release (Some b1) ?w3"
  let ?w5 = "release (Some b2) ?w4"
  let ?w6 = "release (Some b2) ?w5"
  let ?phi = "\<lambda>v. count_list (deleted v) p + card {b\<in>?B. 1 \<le> use_count v b}"
  have fin: "finite ?B" by simp
  have step: "?phi v \<le> ?phi (release q v)" if "\<forall>b\<in>?B. managed v b = p" for v q
    using release_disposals [OF fin that] .
  from m have m2: "\<forall>b\<in>?B. managed w2 b = p" by simp
  then have m3: "\<forall>b\<in>?B. managed ?w3 b = p" and m4: "\<forall>b\<in>?B. managed ?w4 b = p"
    and m5: "\<forall>b\<in>?B. managed ?w5 b = p"
    by simp_all
  from c ne have "{b\<in>?B. 1 \<le> use_count w2 b} = ?B" by auto
  with ne have start: "?phi w2 = count_list (deleted w2) p + 2" by simp
  have b1_4: "use_count ?w4 b1 \<le> 0"
    using release_dec [of b1 w2] release_dec [of b1 ?w3] c(1) by linarith
  have b2_4: "use_count ?w4 b2 \<le> 2"
    using release_mono [of "Some b1" w2 b2] release_mono [of "Some b1" ?w3 b2] c(2) by linarith
  have b1_6: "use_count ?w6 b1 \<le> 0"
    using release_mono [of "Some b2" ?w4 b1] release_mono [of "Some b2" ?w5 b1] b1_4 by linarith
  have b2_6: "use_count ?w6 b2 \<le> 0"
    using release_dec [of b2 ?w4] release_dec [of b2 ?w5] b2_4 by linarith
  from b1_4 have "{b\<in>?B. 1 \<le> use_count ?w4 b} \<subseteq> {b2}" by auto
  then have "card {b\<in>?B. 1 \<le> use_count ?w4 b} \<le> card {b2}"
    by (intro card_mono) simp_all
  then have card4: "card {b\<in>?B. 1 \<le> use_count ?w4 b} \<le> 1" by simp
  from b1_6 b2_6 have "{b\<in>?B. 1 \<le> use_count ?w6 b} = {}" by auto
  then have card6: "card {b\<in>?B. 1 \<le> use_count ?w6 b} = 0" by (simp only: card.empty)
  from step [OF m2, of "Some b1"] step [OF m3, of "Some b1"]
  have phi4: "?phi w2 \<le> ?phi ?w4" by (rule order_trans)
  from step [OF m4, of "Some b2"] step [OF m5, of "Some b2"]
  have "?phi ?w4 \<le> ?phi ?w6" by (rule order_trans)
  with phi4 have phi6: "?phi w2 \<le> ?phi ?w6" by (rule order_trans)
  from phi4 start card4
  show "count_list (deleted w2) p + 1 \<le> count_list (deleted ?w4) p" by linarith
  from phi6 start card6
  show "count_list (deleted w2) p + 2 \<le> count_list (deleted ?w6) p" by linarith
qed

text \<open>
  C10. Two calls of \<open>alloc\<close> with the same raw pointer both succeed and give two
  entries with two control blocks for the one object. Each block counts only its own
  handles, and each deletes the object when its last owner goes: releasing the owners of
  the first group deletes the object once, releasing those of the second deletes it a
  second time. When the object holds no handle in its members, nothing else is deleted.
\<close>

theorem alloc_twice_same_object:
  "(let (h1, w1) = alloc this p w; (h2, w2) = alloc this p w1
    in h1 = Some (next_block w) \<and> h2 = Some (Suc (next_block w)) \<and> h1 \<noteq> h2
       \<and> pointers w2 this = pointers w this @ [h1, h2]
       \<and> managed w2 (next_block w) = p \<and> managed w2 (Suc (next_block w)) = p
       \<and> use_count_of w2 h1 = 2 \<and> use_count_of w2 h2 = 2
       \<and> use_count_of (copy_ptr h1 w2) h2 = 2
       \<and> use_count_of (release h1 w2) h2 = 2
       \<and> count_list (deleted w) p + 1 \<le> count_list (deleted (release h1 (release h1 w2))) p
       \<and> count_list (deleted w) p + 2
            \<le> count_list (deleted (release h2 (release h2 (release h1 (release h1 w2))))) p
       \<and> (filter (\<lambda>e. fst e = p) (owns w) = [] \<longrightarrow>
            deleted (release h1 (release h1 w2)) = deleted w @ [p]
            \<and> deleted (release h2 (release h2 (release h1 (release h1 w2))))
                = deleted w @ [p, p]))"
proof -
  let ?b1 = "next_block w" and ?b2 = "Suc (next_block w)"
  let ?w2 = "snd (alloc this p (snd (alloc this p w)))"
  note s = alloc_twice_state [of this p w]
  have ne: "?b1 \<noteq> ?b2" by simp
  note d = two_groups_disposed [OF s(4,5) ne s(6,7)]
  have indep: "use_count_of (copy_ptr (Some ?b1) ?w2) (Some ?b2) = 2"
    "use_count_of (release (Some ?b1) ?w2) (Some ?b2) = 2"
    using s(6,7) by (simp_all add: copy_ptr_def use_count_of_def release_def Let_def)
  have exact: "deleted (release (Some ?b1) (release (Some ?b1) ?w2)) = deleted w @ [p]
      \<and> deleted (release (Some ?b2) (release (Some ?b2)
            (release (Some ?b1) (release (Some ?b1) ?w2)))) = deleted w @ [p, p]"
    if "filter (\<lambda>e. fst e = p) (owns w) = []"
    using that s(4-9) by (simp add: release_plain)
  from s d indep exact show ?thesis
    by (simp add: case_prod_beta Let_def use_count_of_def)
qed

theorem alloc_twice_same_object_witness:
  "filter (\<lambda>e. fst e = 5) (owns started) = []
   \<and> deleted (release (Some (Suc 0)) (release (Some (Suc 0)) (release (Some 0) (release (Some 0)
        (snd (alloc 0 5 (snd (alloc 0 5 started)))))))) = [5, 5]"
proof -
  have h: "filter (\<lambda>e. fst e = 5) (owns started) = []" by (simp add: started_simps)
  have n: "next_block started = 0" and d: "deleted started = []" by (simp_all add: started_simps)
  note t = alloc_twice_same_object [of 0 5 started, unfolded Let_def case_prod_beta
      alloc_twice_state(1,2) alloc_registry(2) n]
  from t h have "deleted (release (Some (Suc 0)) (release (Some (Suc 0)) (release (Some 0)
      (release (Some 0) (snd (alloc 0 5 (snd (alloc 0 5 started)))))))) = deleted started @ [5, 5]"
    by blast
  with h d show ?thesis by simp
qed

section \<open>The end of the scope\<close>

subsection \<open>Reclamation at the end of the scope\<close>

text \<open>
  C3. The claim: an object whose last external owner is released before the stop signal
  is destructed by the time \<open>runtime\<close> returns. The work \<open>keeps_first\<close> registers objects
  10 and 20 and drops the handle of 20 before it returns; the handle of 10 is still held.
  At the stop signal the entry of 20 is owned by the registry alone, but the final sweep
  stays at the entry of 10: object 20 is never deleted and \<open>runtime\<close> does not return.
\<close>

theorem dropped_object_behind_held_entry_not_reclaimed:
  "run_function (fst keeps_first) (entered boot) = Some (entered first_kept)
   \<and> unique first_kept (Some 1) \<and> managed first_kept 1 = 20
   \<and> deleted first_kept = []
   \<and> collect_body 0 0 first_kept = (0, first_kept)
   \<and> runtime keeps_first boot = None"
proof -
  have "runtime (fst keeps_first, snd keeps_first) boot = None"
    by (rule runtime_hangs(2) [OF keeps_first_run, of 0 0])
      (simp_all add: entered_def first_kept_simps outside_owners_def)
  moreover have "collect_body 0 0 first_kept = (0, first_kept)"
    by (rule collect_body_skip) (simp add: first_kept_simps unique_def use_count_of_def)
  moreover have "managed first_kept 1 = 20"
    by (simp add: first_kept_def started_simps model_defs)
  ultimately show ?thesis
    by (simp add: keeps_first_run first_kept_simps unique_def use_count_of_def)
qed

subsection \<open>The sweep after the stop signal\<close>

text \<open>
  C5. The claim: in every execution of \<open>runtime\<close> a full sweep occurs after the stop
  signal is set, and it completes before \<open>runtime\<close> returns. In the run of
  \<open>sweeps_then_keeps\<close> one sweep completes before the stop signal (it evicts object 7);
  the handle of object 8 is still held when the work returns, and the sweep that the
  thread starts after the stop signal never completes, so the thread is never joined.
\<close>

theorem final_sweep_never_completes:
  "map_option (\<lambda>st. (trace st, deleted (mem st), pointers (mem st) 0, use_count (mem st) 1))
     (run_function (fst sweeps_then_keeps) (entered boot)) = Some ([Sweep], [7], [Some 1], 2)
   \<and> run_function (fst sweeps_then_keeps) (entered boot)
         \<bind> (\<lambda>st1. join (st1\<lparr>gcStopSignal := True, trace := trace st1 @ [StopSignal]\<rparr>)) = None
   \<and> runtime sweeps_then_keeps boot = None"
proof -
  have ev: "map_option (\<lambda>st. (trace st, deleted (mem st), pointers (mem st) 0,
                              use_count (mem st) 1, gc_instance (mem st), owns (mem st)))
     (run_function (fst sweeps_then_keeps) (entered boot))
       = Some ([Sweep], [7], [Some 1], 2, Some 0, [])"
    by code_simp
  then obtain st1 where st1: "run_function (fst sweeps_then_keeps) (entered boot) = Some st1"
    and f: "trace st1 = [Sweep]" "deleted (mem st1) = [7]" "pointers (mem st1) 0 = [Some 1]"
      "use_count (mem st1) 1 = 2" "gc_instance (mem st1) = Some 0" "owns (mem st1) = []"
    by (cases "run_function (fst sweeps_then_keeps) (entered boot)") auto
  have live: "Some 1 \<in> set (pointers (mem st1) 0)" "1 \<le> outside_owners 0 (mem st1) 1"
    using f by (simp_all add: outside_owners_def)
  note hang = runtime_hangs [OF st1 f(5) live]
  from hang(2) [of "snd sweeps_then_keeps"] have "runtime sweeps_then_keeps boot = None" by simp
  with hang(1) st1 f show ?thesis by simp
qed

subsection \<open>The status of the work\<close>

text \<open>
  C8. The claim: \<open>runtime\<close> returns the status of every unit of work. The work
  \<open>keeps_handle\<close> returns 7 with the handle of its object still held; \<open>runtime\<close> never
  returns from joining the thread, so the 7 is not returned.
\<close>

theorem status_never_returned:
  "snd keeps_handle = 7
   \<and> run_function (fst keeps_handle) (entered boot) = Some (entered one_held)
   \<and> runtime keeps_handle boot = None"
proof -
  have "runtime (fst keeps_handle, snd keeps_handle) boot = None"
    by (rule runtime_hangs(2) [OF keeps_handle_run, of 0 0])
      (simp_all add: entered_def one_held_simps outside_owners_def)
  then show ?thesis by (simp add: keeps_handle_run) (simp add: keeps_handle_def)
qed

end
